theory Spec2Isabelle
  imports Complex_Main "HOL-Library.Char_ord" "HOL-Library.List_Lexorder"
    "HOL-Library.Product_Lexorder"
begin

section \<open>Python values\<close>

text \<open>
  The script \<^verbatim>\<open>scripts/consolidate-templates.py\<close> reads template rows from five files,
  reports duplicates, keeps one record per title, sorts and writes the result.

  A Python \<^verbatim>\<open>str\<close> is modelled as the list of its code points, a code point being a
  \<^typ>\<open>char\<close> (so the model covers the code points below 256); the order on strings is
  the lexicographic order on code points, which is how Python compares \<^verbatim>\<open>str\<close>.
  An exception that ends the run is a value \<open>Inl e\<close> of the result type.
\<close>

datatype error = ValueError | TypeError | OverflowError | IndexError

text \<open>
  The values a parsed file hands to the loaders: a CSV cell is a \<^verbatim>\<open>str\<close> (or
  \<^verbatim>\<open>None\<close> where a row is shorter than the header), a JSON member is any JSON value.
  A finite float is given by its exact rational value.
\<close>

datatype pyfloat = Finite rat | PosInf | NegInf | NaN

datatype pyval =
    PNone
  | PBool bool
  | PInt int
  | PFloat pyfloat
  | PStr string
  | PList "pyval list"
  | PDict "(string \<times> pyval) list"

text \<open>\<^verbatim>\<open>bool(v)\<close>, as used by \<^verbatim>\<open>... if row.get('viewCount') else 0\<close>.\<close>

fun truthy :: "pyval \<Rightarrow> bool" where
  "truthy PNone = False"
| "truthy (PBool b) = b"
| "truthy (PInt n) = (n \<noteq> 0)"
| "truthy (PFloat (Finite q)) = (q \<noteq> 0)"
| "truthy (PFloat PosInf) = True"
| "truthy (PFloat NegInf) = True"
| "truthy (PFloat NaN) = True"
| "truthy (PStr s) = (s \<noteq> [])"
| "truthy (PList xs) = (xs \<noteq> [])"
| "truthy (PDict kvs) = (kvs \<noteq> [])"

subsection \<open>Whitespace\<close>

text \<open>
  \<^verbatim>\<open>str.strip()\<close> removes the characters for which \<^verbatim>\<open>str.isspace()\<close> holds from both
  ends. Below 256 these are the code points 9 to 13, 28 to 32, 133 and 160.
\<close>

definition is_space :: "char \<Rightarrow> bool" where
  "is_space c \<longleftrightarrow> c \<in> set [CHR 0x09, CHR 0x0A, CHR 0x0B, CHR 0x0C, CHR 0x0D,
     CHR 0x1C, CHR 0x1D, CHR 0x1E, CHR 0x1F, CHR 0x20, CHR 0x85, CHR 0xA0]"

definition strip :: "string \<Rightarrow> string" where
  "strip s = rev (dropWhile is_space (rev (dropWhile is_space s)))"

subsection \<open>\<^verbatim>\<open>int(v)\<close>\<close>

text \<open>
  \<^verbatim>\<open>int\<close> applied to a \<^verbatim>\<open>str\<close> skips surrounding whitespace, where it does not count the
  code points 28 to 31 as whitespace, then reads an optional sign and decimal digits, a
  single underscore being allowed between two digits. More than 4300 digits are refused
  (the interpreter's default limit). Anything else is a \<^verbatim>\<open>ValueError\<close>.
\<close>

definition is_int_space :: "char \<Rightarrow> bool" where
  "is_int_space c \<longleftrightarrow> c \<in> set [CHR 0x09, CHR 0x0A, CHR 0x0B, CHR 0x0C, CHR 0x0D,
     CHR 0x20, CHR 0x85, CHR 0xA0]"

definition int_strip :: "string \<Rightarrow> string" where
  "int_strip s = rev (dropWhile is_int_space (rev (dropWhile is_int_space s)))"

definition is_digit :: "char \<Rightarrow> bool" where
  "is_digit c \<longleftrightarrow> 48 \<le> (of_char c :: nat) \<and> (of_char c :: nat) \<le> 57"

definition digit_val :: "char \<Rightarrow> nat" where
  "digit_val c = of_char c - 48"

fun digits_value :: "nat \<Rightarrow> string \<Rightarrow> nat option" where
  "digits_value acc [] = Some acc"
| "digits_value acc [c] = (if is_digit c then Some (10 * acc + digit_val c) else None)"
| "digits_value acc (c # d # cs) =
     (if is_digit c then digits_value (10 * acc + digit_val c) (d # cs)
      else if c = CHR ''_'' \<and> is_digit d then digits_value acc (d # cs)
      else None)"

definition parse_decimal :: "string \<Rightarrow> nat option" where
  "parse_decimal s =
     (case s of
        [] \<Rightarrow> None
      | c # cs \<Rightarrow> if is_digit c then digits_value (digit_val c) cs else None)"

definition int_max_str_digits :: nat where
  "int_max_str_digits = 4300"

definition unsigned_of_str :: "string \<Rightarrow> error + nat" where
  "unsigned_of_str s =
     (case parse_decimal s of
        None \<Rightarrow> Inl ValueError
      | Some n \<Rightarrow>
          if int_max_str_digits < length (filter is_digit s) then Inl ValueError
          else Inr n)"

definition int_of_str :: "string \<Rightarrow> error + int" where
  "int_of_str s =
     (case int_strip s of
        [] \<Rightarrow> Inl ValueError
      | c # cs \<Rightarrow>
          if c = CHR ''-'' then map_sum id (\<lambda>n. - int n) (unsigned_of_str cs)
          else if c = CHR ''+'' then map_sum id int (unsigned_of_str cs)
          else map_sum id int (unsigned_of_str (c # cs)))"

text \<open>A float is truncated towards zero; \<^verbatim>\<open>None\<close>, lists and dicts are a \<^verbatim>\<open>TypeError\<close>.\<close>

fun py_int :: "pyval \<Rightarrow> error + int" where
  "py_int PNone = Inl TypeError"
| "py_int (PBool b) = Inr (if b then 1 else 0)"
| "py_int (PInt n) = Inr n"
| "py_int (PFloat (Finite q)) = Inr (if q < 0 then - \<lfloor>- q\<rfloor> else \<lfloor>q\<rfloor>)"
| "py_int (PFloat PosInf) = Inl OverflowError"
| "py_int (PFloat NegInf) = Inl OverflowError"
| "py_int (PFloat NaN) = Inl ValueError"
| "py_int (PStr s) = int_of_str s"
| "py_int (PList xs) = Inl TypeError"
| "py_int (PDict kvs) = Inl TypeError"

section \<open>The template record\<close>

text \<open>
  Every loader builds a dict with the same nine keys. The seven text fields are taken to
  hold \<^verbatim>\<open>str\<close> values, as they do for every complete CSV row and every JSON item whose
  text members are strings; the two counts are the results of \<^verbatim>\<open>int\<close>.
\<close>

record template =
  title :: string
  content :: string
  format :: string
  tags :: string
  category :: string
  authorEmail :: string
  visibility :: string
  viewCount :: int
  useCount :: int

section \<open>Loaders\<close>

text \<open>
  \<^verbatim>\<open>d.get(k, default)\<close> on a dict.
\<close>

definition dict_get :: "('k \<rightharpoonup> 'v) \<Rightarrow> 'k \<Rightarrow> 'v \<Rightarrow> 'v" where
  "dict_get d k dflt = (case d k of None \<Rightarrow> dflt | Some v \<Rightarrow> v)"

text \<open>
  A row of \<^verbatim>\<open>csv.DictReader\<close>: the cells of the text columns, and the cells of the two
  count columns, which are strings, or \<^verbatim>\<open>None\<close> in a row that ends before them. A column
  that the header does not have is absent from the dict.
\<close>

record csv_row =
  csv_text :: "string \<rightharpoonup> string"
  csv_count :: "string \<rightharpoonup> pyval"

text \<open>
  An item of a JSON file: its text members, its \<^verbatim>\<open>tags\<close> member, which is an array or
  a string, and its count members, which are any JSON value.
\<close>

datatype tags_value = TagList "pyval list" | TagText string

record json_item =
  json_text :: "string \<rightharpoonup> string"
  json_tags :: "tags_value option"
  json_count :: "string \<rightharpoonup> pyval"

text \<open>\<^verbatim>\<open>','.join(tags)\<close>: every element has to be a \<^verbatim>\<open>str\<close>.\<close>

fun str_items :: "pyval list \<Rightarrow> error + string list" where
  "str_items [] = Inr []"
| "str_items (PStr s # vs) = map_sum id ((#) s) (str_items vs)"
| "str_items (v # vs) = Inl TypeError"

fun intercalate :: "string \<Rightarrow> string list \<Rightarrow> string" where
  "intercalate sep [] = []"
| "intercalate sep [s] = s"
| "intercalate sep (s # t # ss) = s @ sep @ intercalate sep (t # ss)"

definition py_join :: "string \<Rightarrow> pyval list \<Rightarrow> error + string" where
  "py_join sep vs = map_sum id (intercalate sep) (str_items vs)"

text \<open>
  \<^verbatim>\<open>tags = item.get('tags', []); if isinstance(tags, list): tags = ','.join(tags)\<close>
\<close>

definition item_tags :: "json_item \<Rightarrow> error + string" where
  "item_tags item =
     (case (case json_tags item of None \<Rightarrow> TagList [] | Some v \<Rightarrow> v) of
        TagList vs \<Rightarrow> py_join '','' vs
      | TagText s \<Rightarrow> Inr s)"

text \<open>\<^verbatim>\<open>int(row.get(k, 0))\<close>\<close>

definition count_field :: "(string \<rightharpoonup> pyval) \<Rightarrow> string \<Rightarrow> error + int" where
  "count_field d k = py_int (dict_get d k (PInt 0))"

text \<open>\<^verbatim>\<open>int(row.get(k, 0)) if row.get(k) else 0\<close>\<close>

definition count_field_guarded :: "(string \<rightharpoonup> pyval) \<Rightarrow> string \<Rightarrow> error + int" where
  "count_field_guarded d k =
     (if truthy (dict_get d k PNone) then py_int (dict_get d k (PInt 0)) else Inr 0)"

text \<open>The loop body for \<^verbatim>\<open>sample-templates.csv\<close>.\<close>

definition load_sample_csv :: "csv_row \<Rightarrow> error + template" where
  "load_sample_csv row =
     (case count_field (csv_count row) ''viewCount'' of
        Inl e \<Rightarrow> Inl e
      | Inr vc \<Rightarrow>
     (case count_field (csv_count row) ''useCount'' of
        Inl e \<Rightarrow> Inl e
      | Inr uc \<Rightarrow>
          Inr \<lparr>title = dict_get (csv_text row) ''title'' [],
               content = dict_get (csv_text row) ''content'' [],
               format = ''html'',
               tags = dict_get (csv_text row) ''tags'' [],
               category = dict_get (csv_text row) ''category'' [],
               authorEmail = dict_get (csv_text row) ''authorEmail'' [],
               visibility = dict_get (csv_text row) ''visibility'' [],
               viewCount = vc,
               useCount = uc\<rparr>))"

text \<open>The loop body for \<^verbatim>\<open>sample-templates.json\<close>.\<close>

definition load_sample_json :: "json_item \<Rightarrow> error + template" where
  "load_sample_json item =
     (case item_tags item of
        Inl e \<Rightarrow> Inl e
      | Inr tgs \<Rightarrow>
     (case count_field (json_count item) ''viewCount'' of
        Inl e \<Rightarrow> Inl e
      | Inr vc \<Rightarrow>
     (case count_field (json_count item) ''useCount'' of
        Inl e \<Rightarrow> Inl e
      | Inr uc \<Rightarrow>
          Inr \<lparr>title = dict_get (json_text item) ''title'' [],
               content = dict_get (json_text item) ''content'' [],
               format = ''html'',
               tags = tgs,
               category = dict_get (json_text item) ''category'' [],
               authorEmail = dict_get (json_text item) ''authorEmail'' [],
               visibility = dict_get (json_text item) ''visibility'' [],
               viewCount = vc,
               useCount = uc\<rparr>)))"

text \<open>
  The loop body for \<^verbatim>\<open>plaintext-templates.csv\<close>; the one for
  \<^verbatim>\<open>analyzed-templates.csv\<close> is the same code.
\<close>

definition load_plaintext_csv :: "csv_row \<Rightarrow> error + template" where
  "load_plaintext_csv row =
     (case count_field_guarded (csv_count row) ''viewCount'' of
        Inl e \<Rightarrow> Inl e
      | Inr vc \<Rightarrow>
     (case count_field_guarded (csv_count row) ''useCount'' of
        Inl e \<Rightarrow> Inl e
      | Inr uc \<Rightarrow>
          Inr \<lparr>title = dict_get (csv_text row) ''title'' [],
               content = dict_get (csv_text row) ''content'' [],
               format = dict_get (csv_text row) ''format'' ''plain'',
               tags = dict_get (csv_text row) ''tags'' [],
               category = dict_get (csv_text row) ''category'' [],
               authorEmail = dict_get (csv_text row) ''authorEmail'' [],
               visibility = dict_get (csv_text row) ''visibility'' [],
               viewCount = vc,
               useCount = uc\<rparr>))"

definition load_analyzed_csv :: "csv_row \<Rightarrow> error + template" where
  "load_analyzed_csv row =
     (case count_field_guarded (csv_count row) ''viewCount'' of
        Inl e \<Rightarrow> Inl e
      | Inr vc \<Rightarrow>
     (case count_field_guarded (csv_count row) ''useCount'' of
        Inl e \<Rightarrow> Inl e
      | Inr uc \<Rightarrow>
          Inr \<lparr>title = dict_get (csv_text row) ''title'' [],
               content = dict_get (csv_text row) ''content'' [],
               format = dict_get (csv_text row) ''format'' ''plain'',
               tags = dict_get (csv_text row) ''tags'' [],
               category = dict_get (csv_text row) ''category'' [],
               authorEmail = dict_get (csv_text row) ''authorEmail'' [],
               visibility = dict_get (csv_text row) ''visibility'' [],
               viewCount = vc,
               useCount = uc\<rparr>))"

text \<open>The loop body for \<^verbatim>\<open>plaintext-templates.json\<close>.\<close>

definition load_plaintext_json :: "json_item \<Rightarrow> error + template" where
  "load_plaintext_json item =
     (case item_tags item of
        Inl e \<Rightarrow> Inl e
      | Inr tgs \<Rightarrow>
     (case count_field (json_count item) ''viewCount'' of
        Inl e \<Rightarrow> Inl e
      | Inr vc \<Rightarrow>
     (case count_field (json_count item) ''useCount'' of
        Inl e \<Rightarrow> Inl e
      | Inr uc \<Rightarrow>
          Inr \<lparr>title = dict_get (json_text item) ''title'' [],
               content = dict_get (json_text item) ''content'' [],
               format = dict_get (json_text item) ''format'' ''plain'',
               tags = tgs,
               category = dict_get (json_text item) ''category'' [],
               authorEmail = dict_get (json_text item) ''authorEmail'' [],
               visibility = dict_get (json_text item) ''visibility'' [],
               viewCount = vc,
               useCount = uc\<rparr>)))"

text \<open>
  A loading loop appends one record per row to \<^verbatim>\<open>all_templates\<close> and stops at the
  first row that raises.
\<close>

fun load_rows :: "('r \<Rightarrow> error + template) \<Rightarrow> 'r list \<Rightarrow> template list \<Rightarrow> error + template list" where
  "load_rows ld [] all_templates = Inr all_templates"
| "load_rows ld (r # rs) all_templates =
     (case ld r of
        Inl e \<Rightarrow> Inl e
      | Inr t \<Rightarrow> load_rows ld rs (all_templates @ [t]))"

record sources =
  sample_csv :: "csv_row list"
  sample_json :: "json_item list"
  plaintext_csv :: "csv_row list"
  plaintext_json :: "json_item list"
  analyzed_csv :: "csv_row list"

definition load_all :: "sources \<Rightarrow> error + template list" where
  "load_all src =
     (case load_rows load_sample_csv (sample_csv src) [] of Inl e \<Rightarrow> Inl e | Inr a1 \<Rightarrow>
     (case load_rows load_sample_json (sample_json src) a1 of Inl e \<Rightarrow> Inl e | Inr a2 \<Rightarrow>
     (case load_rows load_plaintext_csv (plaintext_csv src) a2 of Inl e \<Rightarrow> Inl e | Inr a3 \<Rightarrow>
     (case load_rows load_plaintext_json (plaintext_json src) a3 of Inl e \<Rightarrow> Inl e | Inr a4 \<Rightarrow>
      load_rows load_analyzed_csv (analyzed_csv src) a4))))"

section \<open>Duplicate detection\<close>

text \<open>
  The entries of the report: \<^verbatim>\<open>{'title': ..., 'indices': [first, i]}\<close> for a title seen
  before, \<^verbatim>\<open>{'title1': ..., 'title2': ..., 'indices': [first, i]}\<close> for a content key
  seen before. \<^verbatim>\<open>duplicates\<close> collects them under the keys \<^verbatim>\<open>titles\<close> and
  \<^verbatim>\<open>content\<close>.
\<close>

record title_dup =
  dup_title :: string
  dup_indices :: "nat list"

record content_dup =
  title1 :: string
  title2 :: string
  pair_indices :: "nat list"

record dup_report =
  dup_titles :: "title_dup list"
  dup_content :: "content_dup list"

record detect_state =
  seen_titles :: "string \<rightharpoonup> nat"
  seen_content :: "string \<rightharpoonup> nat"
  duplicates :: dup_report

text \<open>\<^verbatim>\<open>content[:200] if len(content) > 200 else content\<close>, on the stripped content.\<close>

definition content_key :: "template \<Rightarrow> string" where
  "content_key t =
     (let c = strip (content t) in if length c > 200 then take 200 c else c)"

definition check_title :: "nat \<Rightarrow> template \<Rightarrow> detect_state \<Rightarrow> detect_state" where
  "check_title i t st =
     (let ttl = strip (title t) in
      case seen_titles st ttl of
        Some j \<Rightarrow>
          st\<lparr>duplicates := (duplicates st)\<lparr>dup_titles :=
               dup_titles (duplicates st) @ [\<lparr>dup_title = ttl, dup_indices = [j, i]\<rparr>]\<rparr>\<rparr>
      | None \<Rightarrow> st\<lparr>seen_titles := (seen_titles st)(ttl \<mapsto> i)\<rparr>)"

text \<open>
  \<^verbatim>\<open>all_templates[seen_content[content_key]]\<close> is a list access, an \<^verbatim>\<open>IndexError\<close> when
  out of range.
\<close>

definition check_content ::
  "template list \<Rightarrow> nat \<Rightarrow> template \<Rightarrow> detect_state \<Rightarrow> error + detect_state" where
  "check_content all_templates i t st =
     (let k = content_key t in
      case seen_content st k of
        Some j \<Rightarrow>
          if j < length all_templates then
            Inr (st\<lparr>duplicates := (duplicates st)\<lparr>dup_content :=
                   dup_content (duplicates st) @
                     [\<lparr>title1 = title (all_templates ! j), title2 = title t,
                       pair_indices = [j, i]\<rparr>]\<rparr>\<rparr>)
          else Inl IndexError
      | None \<Rightarrow> Inr (st\<lparr>seen_content := (seen_content st)(k \<mapsto> i)\<rparr>))"

fun detect_loop ::
  "template list \<Rightarrow> nat \<Rightarrow> template list \<Rightarrow> detect_state \<Rightarrow> error + detect_state" where
  "detect_loop all_templates i [] st = Inr st"
| "detect_loop all_templates i (t # rest) st =
     (case check_content all_templates i t (check_title i t st) of
        Inl e \<Rightarrow> Inl e
      | Inr st' \<Rightarrow> detect_loop all_templates (Suc i) rest st')"

definition detect :: "template list \<Rightarrow> error + dup_report" where
  "detect all_templates =
     map_sum id duplicates
       (detect_loop all_templates 0 all_templates
          \<lparr>seen_titles = Map.empty, seen_content = Map.empty,
           duplicates = \<lparr>dup_titles = [], dup_content = []\<rparr>\<rparr>)"

section \<open>Deduplication\<close>

text \<open>
  \<^verbatim>\<open>max(xs, key=f)\<close> keeps the first element whose key is the largest: a later element
  replaces the current one only when its key is greater. On an empty list it raises
  \<^verbatim>\<open>ValueError\<close>.
\<close>

fun max_from :: "('a \<Rightarrow> int) \<Rightarrow> 'a \<Rightarrow> 'a list \<Rightarrow> 'a" where
  "max_from f best [] = best"
| "max_from f best (x # xs) = max_from f (if f best < f x then x else best) xs"

definition py_max :: "('a \<Rightarrow> int) \<Rightarrow> 'a list \<Rightarrow> error + 'a" where
  "py_max f xs = (case xs of [] \<Rightarrow> Inl ValueError | x # rest \<Rightarrow> Inr (max_from f x rest))"

definition score :: "template \<Rightarrow> int" where
  "score t = viewCount t + useCount t"

fun dedup_loop ::
  "template list \<Rightarrow> template list \<Rightarrow> string set \<Rightarrow> template list \<Rightarrow> error + template list" where
  "dedup_loop all_templates [] processed unique_templates = Inr unique_templates"
| "dedup_loop all_templates (t # rest) processed unique_templates =
     (let ttl = strip (title t) in
      if ttl \<notin> processed then
        (let same_title = filter (\<lambda>u. strip (title u) = ttl) all_templates in
         case py_max score same_title of
           Inl e \<Rightarrow> Inl e
         | Inr best \<Rightarrow>
             dedup_loop all_templates rest (insert ttl processed) (unique_templates @ [best]))
      else dedup_loop all_templates rest processed unique_templates)"

definition dedup :: "template list \<Rightarrow> error + template list" where
  "dedup all_templates = dedup_loop all_templates all_templates {} []"

section \<open>Sorting and writing\<close>

text \<open>
  \<^verbatim>\<open>unique_templates.sort(key=lambda t: (t['category'], t['title']))\<close>: a stable sort
  on the pair of strings, tuples being compared lexicographically.
\<close>

definition sort_templates :: "template list \<Rightarrow> template list" where
  "sort_templates ts = sort_key (\<lambda>t. (category t, title t)) ts"

text \<open>
  The writers see a record as the dict the loaders built, its keys in the order of the
  dict literal; a value is a text or a count.
\<close>

datatype field_value = Text string | Count int

definition template_dict :: "template \<Rightarrow> (string \<times> field_value) list" where
  "template_dict t =
     [(''title'', Text (title t)),
      (''content'', Text (content t)),
      (''format'', Text (format t)),
      (''tags'', Text (tags t)),
      (''category'', Text (category t)),
      (''authorEmail'', Text (authorEmail t)),
      (''visibility'', Text (visibility t)),
      (''viewCount'', Count (viewCount t)),
      (''useCount'', Count (useCount t))]"

definition fieldnames :: "string list" where
  "fieldnames = [''title'', ''content'', ''format'', ''tags'', ''category'', ''authorEmail'',
     ''visibility'', ''viewCount'', ''useCount'']"

text \<open>\<^verbatim>\<open>str(n)\<close> for an \<^verbatim>\<open>int\<close>: the decimal digits, after a minus sign when negative.\<close>

function digits_of :: "nat \<Rightarrow> string" where
  "digits_of n =
     (if n < 10 then [char_of (48 + n)]
      else digits_of (n div 10) @ [char_of (48 + n mod 10)])"
  by pat_completeness auto
termination
  by (relation "measure id") auto

definition str_of_int :: "int \<Rightarrow> string" where
  "str_of_int n = (if n < 0 then CHR ''-'' # digits_of (nat (- n)) else digits_of (nat n))"

text \<open>The csv writer puts a \<^verbatim>\<open>str\<close> as it is and any other value as \<^verbatim>\<open>str(value)\<close>.\<close>

fun cell_text :: "field_value \<Rightarrow> string" where
  "cell_text (Text s) = s"
| "cell_text (Count n) = str_of_int n"

text \<open>
  \<^verbatim>\<open>csv.DictWriter\<close> (with its defaults \<^verbatim>\<open>restval=''\<close>, \<^verbatim>\<open>extrasaction='raise'\<close>)
  raises \<^verbatim>\<open>ValueError\<close> for a dict with a key that is not a field name, and writes
  \<^verbatim>\<open>rowdict.get(key, restval)\<close> for each field name, in their order.
\<close>

definition dict_to_list :: "(string \<times> field_value) list \<Rightarrow> error + string list" where
  "dict_to_list rowdict =
     (if \<exists>k \<in> set (map fst rowdict). k \<notin> set fieldnames then Inl ValueError
      else Inr (map (\<lambda>k. case map_of rowdict k of None \<Rightarrow> [] | Some v \<Rightarrow> cell_text v)
                  fieldnames))"

fun writerows :: "(string \<times> field_value) list list \<Rightarrow> error + string list list" where
  "writerows [] = Inr []"
| "writerows (d # ds) =
     (case dict_to_list d of
        Inl e \<Rightarrow> Inl e
      | Inr r \<Rightarrow> map_sum id ((#) r) (writerows ds))"

text \<open>
  What a run leaves in the three files: the header and the rows handed to the csv writer,
  the list handed to \<^verbatim>\<open>json.dump\<close>, and the report.
\<close>

record outputs =
  csv_header :: "string list"
  csv_rows :: "string list list"
  json_records :: "(string \<times> field_value) list list"
  report :: dup_report

text \<open>Everything after the loading loops.\<close>

definition consolidate :: "template list \<Rightarrow> error + outputs" where
  "consolidate all_templates =
     (case detect all_templates of Inl e \<Rightarrow> Inl e | Inr dups \<Rightarrow>
     (case dedup all_templates of Inl e \<Rightarrow> Inl e | Inr unique_templates \<Rightarrow>
     (let final = sort_templates unique_templates in
      case writerows (map template_dict final) of Inl e \<Rightarrow> Inl e | Inr rows \<Rightarrow>
        Inr \<lparr>csv_header = fieldnames, csv_rows = rows,
             json_records = map template_dict final, report = dups\<rparr>)))"

definition consolidate_templates :: "sources \<Rightarrow> error + outputs" where
  "consolidate_templates src =
     (case load_all src of Inl e \<Rightarrow> Inl e | Inr all_templates \<Rightarrow> consolidate all_templates)"

section \<open>Notions used in the statements\<close>

text \<open>
  The title as the detection and deduplication loops compare it,
  \<^verbatim>\<open>template['title'].strip()\<close>, and the list \<^verbatim>\<open>same_title\<close> of the records with a given
  trimmed title, in input order.
\<close>

definition trimmed_title :: "template \<Rightarrow> string" where
  "trimmed_title t = strip (title t)"

definition candidates :: "template list \<Rightarrow> string \<Rightarrow> template list" where
  "candidates ts T = filter (\<lambda>u. strip (title u) = T) ts"

text \<open>
  A record is loaded from the sources when one of the five loaders returns it for a row or
  item of its file.
\<close>

definition loaded_from :: "sources \<Rightarrow> template \<Rightarrow> bool" where
  "loaded_from src t \<longleftrightarrow>
     Inr t \<in> set (map load_sample_csv (sample_csv src) @
                  map load_sample_json (sample_json src) @
                  map load_plaintext_csv (plaintext_csv src) @
                  map load_plaintext_json (plaintext_json src) @
                  map load_analyzed_csv (analyzed_csv src))"

text \<open>
  What a loader does with a count field, by the value the row or item holds under its key
  (\<open>None\<close> when the key is absent): the count that results, and whether the loader raises.
  The guarded variants are those of \<^verbatim>\<open>int(row.get(k, 0)) if row.get(k) else 0\<close>.
\<close>

fun count_ok :: "pyval option \<Rightarrow> int \<Rightarrow> bool" where
  "count_ok None n = (n = 0)"
| "count_ok (Some v) n = (py_int v = Inr n)"

fun count_ok_guarded :: "pyval option \<Rightarrow> int \<Rightarrow> bool" where
  "count_ok_guarded None n = (n = 0)"
| "count_ok_guarded (Some v) n = (if truthy v then py_int v = Inr n else n = 0)"

fun count_bad :: "pyval option \<Rightarrow> bool" where
  "count_bad None = False"
| "count_bad (Some v) = isl (py_int v)"

fun count_bad_guarded :: "pyval option \<Rightarrow> bool" where
  "count_bad_guarded None = False"
| "count_bad_guarded (Some v) = (truthy v \<and> isl (py_int v))"

text \<open>
  A loader \<open>ld\<close> reads the two counts of a row \<open>r\<close> from \<open>counts r\<close>: it raises exactly
  when something else failed or one of the two values is bad, and the record it returns
  otherwise holds the counts that \<open>ok\<close> describes.
\<close>

definition reads_counts ::
  "('r \<Rightarrow> error + template) \<Rightarrow> ('r \<Rightarrow> string \<rightharpoonup> pyval) \<Rightarrow> (pyval option \<Rightarrow> int \<Rightarrow> bool) \<Rightarrow>
     (pyval option \<Rightarrow> bool) \<Rightarrow> bool \<Rightarrow> 'r \<Rightarrow> bool" where
  "reads_counts ld counts ok bad other_failure r =
     ((isl (ld r) \<longleftrightarrow>
         other_failure \<or> bad (counts r ''viewCount'') \<or> bad (counts r ''useCount'')) \<and>
      (case ld r of
         Inl e \<Rightarrow> True
       | Inr t \<Rightarrow> ok (counts r ''viewCount'') (viewCount t) \<and>
                  ok (counts r ''useCount'') (useCount t)))"

text \<open>
  Count values that are not negative: a number that is at least 0, a string without a minus
  sign, or a value that \<^verbatim>\<open>int\<close> maps to 0 or 1 or rejects.
\<close>

fun nonneg_source :: "pyval \<Rightarrow> bool" where
  "nonneg_source (PInt n) = (0 \<le> n)"
| "nonneg_source (PFloat (Finite q)) = (0 \<le> q)"
| "nonneg_source (PStr s) = (CHR ''-'' \<notin> set s)"
| "nonneg_source v = True"

definition nonneg_counts :: "(string \<rightharpoonup> pyval) \<Rightarrow> bool" where
  "nonneg_counts d \<longleftrightarrow>
     nonneg_source (dict_get d ''viewCount'' (PInt 0)) \<and>
     nonneg_source (dict_get d ''useCount'' (PInt 0))"

subsection \<open>The loops in closed form\<close>

text \<open>
  The distinct elements of a list in the order of their first occurrence, leaving out those
  in \<open>P\<close>; the record that \<^verbatim>\<open>max\<close> selects among the candidates of a title.
\<close>

fun first_seen :: "'a set \<Rightarrow> 'a list \<Rightarrow> 'a list" where
  "first_seen P [] = []"
| "first_seen P (x # xs) = (if x \<in> P then first_seen P xs else x # first_seen (insert x P) xs)"

definition best_of :: "template list \<Rightarrow> string \<Rightarrow> template" where
  "best_of ts T = max_from score (hd (candidates ts T)) (tl (candidates ts T))"

text \<open>
  The index of the first occurrence of a key, the map from each key to that index, and the
  indices at which a key occurs that has occurred before.
\<close>

fun first_index :: "'a list \<Rightarrow> 'a \<Rightarrow> nat" where
  "first_index [] x = 0"
| "first_index (y # ys) x = (if y = x then 0 else Suc (first_index ys x))"

definition first_map :: "'a list \<Rightarrow> 'a \<rightharpoonup> nat" where
  "first_map ks = (\<lambda>x. if x \<in> set ks then Some (first_index ks x) else None)"

definition repeats :: "'a list \<Rightarrow> nat list" where
  "repeats ks = filter (\<lambda>i. ks ! i \<in> set (take i ks)) [0..<length ks]"

text \<open>
  The report entries for such an index, and the state of the detection loop after it has
  gone through the prefix \<open>pre\<close> of the list.
\<close>

definition title_entry :: "string list \<Rightarrow> nat \<Rightarrow> title_dup" where
  "title_entry ks i = \<lparr>dup_title = ks ! i, dup_indices = [first_index ks (ks ! i), i]\<rparr>"

definition content_entry :: "template list \<Rightarrow> string list \<Rightarrow> nat \<Rightarrow> content_dup" where
  "content_entry ts ks i =
     \<lparr>title1 = title (ts ! first_index ks (ks ! i)), title2 = title (ts ! i),
      pair_indices = [first_index ks (ks ! i), i]\<rparr>"

definition state_after :: "template list \<Rightarrow> template list \<Rightarrow> detect_state" where
  "state_after ts pre =
     \<lparr>seen_titles = first_map (map trimmed_title pre),
      seen_content = first_map (map content_key pre),
      duplicates =
        \<lparr>dup_titles = map (title_entry (map trimmed_title pre)) (repeats (map trimmed_title pre)),
         dup_content =
           map (content_entry ts (map content_key pre)) (repeats (map content_key pre))\<rparr>\<rparr>"

subsection \<open>Example inputs\<close>

text \<open>Loaded records: three that share a trimmed title, and one other.\<close>

definition ta :: template where
  "ta = \<lparr>title = ''Email Draft'', content = ''Dear team'', format = ''html'', tags = ''mail'',
     category = ''work'', authorEmail = ''a@example.com'', visibility = ''public'',
     viewCount = 3, useCount = 2\<rparr>"

definition tb :: template where
  "tb = \<lparr>title = '' Email Draft '', content = '' Dear team'', format = ''plain'', tags = [],
     category = ''mail'', authorEmail = [], visibility = ''public'',
     viewCount = 10, useCount = 2\<rparr>"

definition tc :: template where
  "tc = \<lparr>title = ''Email Draft'', content = ''Hello'', format = ''plain'', tags = ''x'',
     category = ''mail'', authorEmail = [], visibility = ''private'',
     viewCount = 6, useCount = 6\<rparr>"

definition td :: template where
  "td = \<lparr>title = ''Agenda'', content = ''Items'', format = ''plain'', tags = [],
     category = ''work'', authorEmail = [], visibility = ''public'',
     viewCount = 0, useCount = 0\<rparr>"

definition rep_ex :: dup_report where
  "rep_ex =
     \<lparr>dup_titles = [\<lparr>dup_title = ''Email Draft'', dup_indices = [0, 1]\<rparr>],
      dup_content =
        [\<lparr>title1 = ''Email Draft'', title2 = '' Email Draft '', pair_indices = [0, 1]\<rparr>]\<rparr>"

text \<open>Rows and items of the source files, with the records the loaders make of them.\<close>

definition row_ok :: csv_row where
  "row_ok =
     \<lparr>csv_text = [''title'' \<mapsto> ''Greeting'', ''format'' \<mapsto> ''markdown''],
      csv_count = [''viewCount'' \<mapsto> PStr ''1_000'', ''useCount'' \<mapsto> PStr '' 7 '']\<rparr>"

definition rec_ok :: template where
  "rec_ok =
     \<lparr>title = ''Greeting'', content = [], format = ''markdown'', tags = [], category = [],
      authorEmail = [], visibility = [], viewCount = 1000, useCount = 7\<rparr>"

definition item_ok :: json_item where
  "item_ok =
     \<lparr>json_text = [''title'' \<mapsto> ''Greeting'', ''format'' \<mapsto> ''markdown''],
      json_tags = Some (TagList [PStr ''a'', PStr ''b'']),
      json_count = [''viewCount'' \<mapsto> PInt 4]\<rparr>"

definition rec_item :: template where
  "rec_item =
     \<lparr>title = ''Greeting'', content = [], format = ''markdown'', tags = ''a,b'', category = [],
      authorEmail = [], visibility = [], viewCount = 4, useCount = 0\<rparr>"

definition row_neg :: csv_row where
  "row_neg =
     \<lparr>csv_text = [''title'' \<mapsto> ''Greeting'', ''format'' \<mapsto> ''plain''],
      csv_count = [''viewCount'' \<mapsto> PStr ''-5'']\<rparr>"

definition rec_neg :: template where
  "rec_neg =
     \<lparr>title = ''Greeting'', content = [], format = ''html'', tags = [], category = [],
      authorEmail = [], visibility = [], viewCount = - 5, useCount = 0\<rparr>"



definition row_agenda :: csv_row where
  "row_agenda =
     \<lparr>csv_text = [''title'' \<mapsto> '' Agenda '', ''content'' \<mapsto> ''Items'', ''category'' \<mapsto> ''work''],
      csv_count = Map.empty\<rparr>"

text \<open>A run on five small files, and what it writes.\<close>

definition src_ex :: sources where
  "src_ex = \<lparr>sample_csv = [row_ok], sample_json = [item_ok], plaintext_csv = [row_agenda],
     plaintext_json = [], analyzed_csv = [row_neg]\<rparr>"

definition rec_greeting :: template where
  "rec_greeting =
     \<lparr>title = ''Greeting'', content = [], format = ''html'', tags = [], category = [],
      authorEmail = [], visibility = [], viewCount = 1000, useCount = 7\<rparr>"

definition rec_agenda :: template where
  "rec_agenda =
     \<lparr>title = '' Agenda '', content = ''Items'', format = ''plain'', tags = [],
      category = ''work'', authorEmail = [], visibility = [], viewCount = 0, useCount = 0\<rparr>"

definition out_ex :: outputs where
  "out_ex =
     \<lparr>csv_header = fieldnames,
      csv_rows =
        [[''Greeting'', [], ''html'', [], [], [], [], ''1000'', ''7''],
         ['' Agenda '', ''Items'', ''plain'', [], ''work'', [], [], ''0'', ''0'']],
      json_records = [template_dict rec_greeting, template_dict rec_agenda],
      report =
        \<lparr>dup_titles =
           [\<lparr>dup_title = ''Greeting'', dup_indices = [0, 1]\<rparr>,
            \<lparr>dup_title = ''Greeting'', dup_indices = [0, 3]\<rparr>],
         dup_content =
           [\<lparr>title1 = ''Greeting'', title2 = ''Greeting'', pair_indices = [0, 1]\<rparr>,
            \<lparr>title1 = ''Greeting'', title2 = ''Greeting'', pair_indices = [0, 3]\<rparr>]\<rparr>\<rparr>"



section \<open>Properties of the loops\<close>

lemma set_first_seen: "set (first_seen P xs) = set xs - P"
  by (induction xs arbitrary: P) auto

lemma distinct_first_seen: "distinct (first_seen P xs)"
  by (induction xs arbitrary: P) (auto simp: set_first_seen)

lemma length_first_seen: "length (first_seen {} xs) = card (set xs)"
  using distinct_card [OF distinct_first_seen, of "{}" xs] by (simp add: set_first_seen)

lemma max_from_mem: "max_from f b xs \<in> set (b # xs)"
  by (induction xs arbitrary: b) auto

lemma max_from_ge_start: "f b \<le> f (max_from f b xs)"
proof (induction xs arbitrary: b)
  case Nil
  show ?case by simp
next
  case (Cons x xs)
  have "f b \<le> f (if f b < f x then x else b)" by simp
  also have "\<dots> \<le> f (max_from f (if f b < f x then x else b) xs)" by (rule Cons.IH)
  finally show ?case by simp
qed

lemma max_from_ge: "y \<in> set (b # xs) \<Longrightarrow> f y \<le> f (max_from f b xs)"
proof (induction xs arbitrary: b)
  case Nil
  then show ?case by simp
next
  case (Cons x xs)
  let ?b = "if f b < f x then x else b"
  from Cons.prems consider "y = b" | "y = x" | "y \<in> set xs" by auto
  then show ?case
  proof cases
    case 1
    have "f b \<le> f ?b" by simp
    also have "\<dots> \<le> f (max_from f ?b xs)" by (rule max_from_ge_start)
    finally show ?thesis using 1 by simp
  next
    case 2
    have "f x \<le> f ?b" by simp
    also have "\<dots> \<le> f (max_from f ?b xs)" by (rule max_from_ge_start)
    finally show ?thesis using 2 by simp
  next
    case 3
    then have "y \<in> set (?b # xs)" by simp
    from Cons.IH [OF this] show ?thesis by simp
  qed
qed

lemma max_from_first:
  "\<exists>i < length (b # xs). (b # xs) ! i = max_from f b xs \<and>
      (\<forall>k < i. f ((b # xs) ! k) < f (max_from f b xs))"
proof (induction xs arbitrary: b)
  case Nil
  show ?case by simp
next
  case (Cons x xs)
  let ?b = "if f b < f x then x else b"
  let ?m = "max_from f ?b xs"
  from Cons.IH [of ?b] obtain i where i: "i < length (?b # xs)" "(?b # xs) ! i = ?m"
    and less: "\<forall>k < i. f ((?b # xs) ! k) < f ?m" by blast
  show ?case
  proof (cases i)
    case 0
    then have m: "?m = ?b" using i by simp
    show ?thesis
    proof (cases "f b < f x")
      case True
      then have "(b # x # xs) ! 1 = max_from f b (x # xs)" using m by simp
      moreover have "\<forall>k < 1. f ((b # x # xs) ! k) < f (max_from f b (x # xs))"
        using True m by simp
      ultimately show ?thesis by (intro exI [of _ 1]) simp
    next
      case False
      then have "(b # x # xs) ! 0 = max_from f b (x # xs)" using m by simp
      then show ?thesis by (intro exI [of _ 0]) simp
    qed
  next
    case (Suc j)
    then have j: "j < length xs" "xs ! j = ?m" using i by simp_all
    have lt0: "f ?b < f ?m" using less Suc by auto
    have ltk: "\<forall>k < j. f (xs ! k) < f ?m" using less Suc by auto
    have "\<forall>k < Suc (Suc j). f ((b # x # xs) ! k) < f ?m"
    proof (intro allI impI)
      fix k assume k: "k < Suc (Suc j)"
      show "f ((b # x # xs) ! k) < f ?m"
      proof (cases k)
        case 0
        have "f b \<le> f ?b" by simp
        with lt0 show ?thesis using 0 by simp
      next
        case (Suc k')
        show ?thesis
        proof (cases k')
          case 0
          have "f x \<le> f ?b" by simp
          with lt0 show ?thesis using Suc 0 by simp
        next
          case (Suc k'')
          with \<open>k = Suc k'\<close> k ltk show ?thesis by simp
        qed
      qed
    qed
    moreover have "(b # x # xs) ! Suc (Suc j) = max_from f b (x # xs)" using j by simp
    moreover have "Suc (Suc j) < length (b # x # xs)" using j by simp
    ultimately show ?thesis by (metis max_from.simps(2))
  qed
qed

lemma candidates_nonempty: "t \<in> set ts \<Longrightarrow> candidates ts (strip (title t)) \<noteq> []"
  by (auto simp: candidates_def filter_empty_conv)

lemma py_max_candidates:
  "t \<in> set ts \<Longrightarrow>
     py_max score (candidates ts (strip (title t))) = Inr (best_of ts (strip (title t)))"
  using candidates_nonempty [of t ts]
  by (cases "candidates ts (strip (title t))") (simp_all add: py_max_def best_of_def)

lemma dedup_loop_eq:
  "set rest \<subseteq> set ts \<Longrightarrow>
     dedup_loop ts rest P U = Inr (U @ map (best_of ts) (first_seen P (map trimmed_title rest)))"
proof (induction rest arbitrary: P U)
  case Nil
  show ?case by simp
next
  case (Cons t rest)
  then have t: "t \<in> set ts" and rest: "set rest \<subseteq> set ts" by auto
  show ?case
    using py_max_candidates [OF t] Cons.IH [OF rest]
    by (simp add: Let_def trimmed_title_def candidates_def)
qed

lemma dedup_eq: "dedup ts = Inr (map (best_of ts) (first_seen {} (map trimmed_title ts)))"
  using dedup_loop_eq [of ts ts "{}" "[]"] by (simp add: dedup_def)

lemma best_of_props:
  assumes "T \<in> set (map trimmed_title ts)"
  shows "\<exists>i < length (candidates ts T). best_of ts T = candidates ts T ! i \<and>
           (\<forall>c \<in> set (candidates ts T). score c \<le> score (best_of ts T)) \<and>
           (\<forall>k < i. score (candidates ts T ! k) < score (best_of ts T))"
proof -
  from assms obtain t where "t \<in> set ts" "T = strip (title t)"
    by (auto simp: trimmed_title_def)
  then have "candidates ts T \<noteq> []" using candidates_nonempty by simp
  then obtain b xs where c: "candidates ts T = b # xs" by (cases "candidates ts T") auto
  then have m: "best_of ts T = max_from score b xs" by (simp add: best_of_def)
  from max_from_first [of b xs score] obtain i where
    "i < length (b # xs)" "(b # xs) ! i = max_from score b xs"
    "\<forall>k < i. score ((b # xs) ! k) < score (max_from score b xs)" by blast
  moreover have "\<forall>y \<in> set (b # xs). score y \<le> score (max_from score b xs)"
    using max_from_ge [of _ b xs score] by blast
  ultimately show ?thesis unfolding c m by metis
qed

lemma best_of_candidate:
  assumes "T \<in> set (map trimmed_title ts)"
  shows "best_of ts T \<in> set (candidates ts T)"
proof -
  from best_of_props [OF assms] obtain i where
    "i < length (candidates ts T)" "best_of ts T = candidates ts T ! i" by blast
  then show ?thesis by simp
qed

lemma best_of_title:
  "T \<in> set (map trimmed_title ts) \<Longrightarrow> strip (title (best_of ts T)) = T"
  using best_of_candidate [of T ts] by (simp add: candidates_def)

lemma best_of_mem: "T \<in> set (map trimmed_title ts) \<Longrightarrow> best_of ts T \<in> set ts"
  using best_of_candidate [of T ts] by (simp add: candidates_def)

lemma filter_map_distinct:
  "distinct xs \<Longrightarrow> x \<in> set xs \<Longrightarrow> (\<forall>y \<in> set xs. g (f y) = y) \<Longrightarrow>
     filter (\<lambda>u. g u = x) (map f xs) = [f x]"
proof (induction xs)
  case Nil
  then show ?case by simp
next
  case (Cons a xs)
  show ?case
  proof (cases "a = x")
    case True
    with Cons.prems have "\<forall>y \<in> set xs. g (f y) \<noteq> x" by auto
    then have "filter (\<lambda>u. g u = x) (map f xs) = []" by (simp add: filter_empty_conv)
    with True Cons.prems show ?thesis by simp
  next
    case False
    with Cons.prems have "x \<in> set xs" "distinct xs" "\<forall>y \<in> set xs. g (f y) = y" "g (f a) = a"
      by auto
    with Cons.IH False show ?thesis by simp
  qed
qed

lemma dedup_one_per_title:
  assumes "T \<in> set (map trimmed_title ts)"
  shows "filter (\<lambda>u. strip (title u) = T)
           (map (best_of ts) (first_seen {} (map trimmed_title ts))) = [best_of ts T]"
proof (rule filter_map_distinct)
  show "distinct (first_seen {} (map trimmed_title ts))" by (rule distinct_first_seen)
  show "T \<in> set (first_seen {} (map trimmed_title ts))" using assms by (simp add: set_first_seen)
  show "\<forall>y \<in> set (first_seen {} (map trimmed_title ts)). strip (title (best_of ts y)) = y"
    using best_of_title by (simp add: set_first_seen)
qed

lemma dedup_subset: "dedup ts = Inr us \<Longrightarrow> set us \<subseteq> set ts"
  using best_of_mem [of _ ts] by (auto simp: dedup_eq set_first_seen)

lemma first_index_less: "x \<in> set ks \<Longrightarrow> first_index ks x < length ks"
  by (induction ks) auto

lemma first_index_nth: "x \<in> set ks \<Longrightarrow> ks ! first_index ks x = x"
  by (induction ks) auto

lemma first_index_before: "k < first_index ks x \<Longrightarrow> ks ! k \<noteq> x"
proof (induction ks arbitrary: k)
  case Nil
  then show ?case by simp
next
  case (Cons y ys)
  then show ?case by (cases k) (auto split: if_splits)
qed

lemma first_index_snoc: "x \<in> set ks \<Longrightarrow> first_index (ks @ [k]) x = first_index ks x"
  by (induction ks) auto

lemma first_index_new: "k \<notin> set ks \<Longrightarrow> first_index (ks @ [k]) k = length ks"
  by (induction ks) auto

lemma first_map_snoc:
  "first_map (ks @ [k]) = (if k \<in> set ks then first_map ks else (first_map ks)(k \<mapsto> length ks))"
  by (rule ext) (auto simp: first_map_def first_index_snoc first_index_new)

lemma repeats_snoc:
  "repeats (ks @ [k]) = repeats ks @ (if k \<in> set ks then [length ks] else [])"
proof -
  have "filter (\<lambda>i. (ks @ [k]) ! i \<in> set (take i (ks @ [k]))) [0..<length ks] =
        filter (\<lambda>i. ks ! i \<in> set (take i ks)) [0..<length ks]"
    by (rule filter_cong) (auto simp: nth_append)
  then show ?thesis by (simp add: repeats_def)
qed

lemma repeats_bound: "i \<in> set (repeats ks) \<Longrightarrow> i < length ks \<and> ks ! i \<in> set (take i ks)"
  by (simp add: repeats_def)

lemma repeats_in_set: "i \<in> set (repeats ks) \<Longrightarrow> ks ! i \<in> set ks"
  using repeats_bound [of i ks] by (meson in_set_takeD)

lemma title_entries_snoc:
  "map (title_entry (ks @ [k])) (repeats ks) = map (title_entry ks) (repeats ks)"
proof (rule map_cong [OF refl])
  fix i assume i: "i \<in> set (repeats ks)"
  then have "i < length ks" "ks ! i \<in> set ks"
    using repeats_bound [of i ks] repeats_in_set [of i ks] by simp_all
  then show "title_entry (ks @ [k]) i = title_entry ks i"
    by (simp add: title_entry_def nth_append first_index_snoc)
qed

lemma content_entries_snoc:
  "map (content_entry ts (ks @ [k])) (repeats ks) = map (content_entry ts ks) (repeats ks)"
proof (rule map_cong [OF refl])
  fix i assume i: "i \<in> set (repeats ks)"
  then have "i < length ks" "ks ! i \<in> set ks"
    using repeats_bound [of i ks] repeats_in_set [of i ks] by simp_all
  then show "content_entry ts (ks @ [k]) i = content_entry ts ks i"
    by (simp add: content_entry_def nth_append first_index_snoc)
qed

lemma check_title_state:
  "check_title (length pre) t (state_after ts pre) =
     (state_after ts pre)
       \<lparr>seen_titles := first_map (map trimmed_title (pre @ [t])),
        duplicates := (duplicates (state_after ts pre))
          \<lparr>dup_titles := map (title_entry (map trimmed_title (pre @ [t])))
             (repeats (map trimmed_title (pre @ [t])))\<rparr>\<rparr>"
proof (cases "trimmed_title t \<in> set (map trimmed_title pre)")
  case True
  then have seen: "seen_titles (state_after ts pre) (strip (title t)) =
      Some (first_index (map trimmed_title pre) (trimmed_title t))"
    by (simp add: state_after_def first_map_def trimmed_title_def)
  have entry: "title_entry (map trimmed_title pre @ [trimmed_title t]) (length pre) =
      \<lparr>dup_title = trimmed_title t,
       dup_indices = [first_index (map trimmed_title pre) (trimmed_title t), length pre]\<rparr>"
    using True by (simp add: title_entry_def nth_append first_index_snoc)
  show ?thesis
    using True seen entry
    by (simp add: check_title_def Let_def first_map_snoc repeats_snoc title_entries_snoc
        trimmed_title_def [symmetric])
       (simp add: state_after_def)
next
  case False
  then have seen: "seen_titles (state_after ts pre) (strip (title t)) = None"
    by (simp add: state_after_def first_map_def trimmed_title_def)
  show ?thesis
    using False seen
    by (simp add: check_title_def Let_def first_map_snoc repeats_snoc title_entries_snoc
        trimmed_title_def [symmetric])
       (simp add: state_after_def)
qed

lemma detect_step:
  assumes ts: "ts = pre @ t # rest"
  shows "check_content ts (length pre) t (check_title (length pre) t (state_after ts pre)) =
           Inr (state_after ts (pre @ [t]))"
proof (cases "content_key t \<in> set (map content_key pre)")
  case True
  let ?j = "first_index (map content_key pre) (content_key t)"
  have j: "?j < length pre" using first_index_less [OF True] by simp
  then have jlen: "?j < length ts" using ts by simp
  have entry: "content_entry ts (map content_key pre @ [content_key t]) (length pre) =
      \<lparr>title1 = title (ts ! ?j), title2 = title t, pair_indices = [?j, length pre]\<rparr>"
    using True ts by (simp add: content_entry_def nth_append first_index_snoc)
  have seen: "seen_content (check_title (length pre) t (state_after ts pre)) (content_key t) =
      Some ?j"
    using True by (simp add: check_title_state) (simp add: state_after_def first_map_def)
  show ?thesis
    using True jlen entry seen
    by (simp add: check_content_def Let_def check_title_state)
       (simp add: state_after_def first_map_snoc repeats_snoc content_entries_snoc)
next
  case False
  have seen: "seen_content (check_title (length pre) t (state_after ts pre)) (content_key t) =
      None"
    using False by (simp add: check_title_state) (simp add: state_after_def first_map_def)
  show ?thesis
    using False seen
    by (simp add: check_content_def Let_def check_title_state)
       (simp add: state_after_def first_map_snoc repeats_snoc content_entries_snoc)
qed

lemma detect_loop_eq:
  "ts = pre @ rest \<Longrightarrow>
     detect_loop ts (length pre) rest (state_after ts pre) = Inr (state_after ts ts)"
proof (induction rest arbitrary: pre)
  case Nil
  then show ?case by simp
next
  case (Cons t rest)
  from Cons.prems have "ts = (pre @ [t]) @ rest" by simp
  from Cons.IH [OF this] detect_step [OF Cons.prems] show ?case by simp
qed

lemma detect_eq:
  "detect ts =
     Inr \<lparr>dup_titles = map (title_entry (map trimmed_title ts)) (repeats (map trimmed_title ts)),
          dup_content =
            map (content_entry ts (map content_key ts)) (repeats (map content_key ts))\<rparr>"
proof -
  have init: "state_after ts [] =
      \<lparr>seen_titles = Map.empty, seen_content = Map.empty,
       duplicates = \<lparr>dup_titles = [], dup_content = []\<rparr>\<rparr>"
    by (simp add: state_after_def first_map_def repeats_def)
  show ?thesis
    using detect_loop_eq [of ts "[]" ts]
    by (simp add: detect_def init [symmetric]) (simp add: state_after_def)
qed

lemma mem_repeats: "i \<in> set (repeats ks) \<longleftrightarrow> i < length ks \<and> (\<exists>j < i. ks ! j = ks ! i)"
proof -
  have "ks ! i \<in> set (take i ks) \<longleftrightarrow> (\<exists>j < i. ks ! j = ks ! i)" if "i < length ks"
    using that by (auto simp: in_set_conv_nth)
  then show ?thesis by (auto simp: repeats_def)
qed

lemma distinct_repeats: "distinct (repeats ks)"
  by (simp add: repeats_def)

lemma first_index_earlier:
  assumes "j < i" "ks ! j = ks ! i"
  shows "first_index ks (ks ! i) \<le> j"
proof (rule ccontr)
  assume "\<not> first_index ks (ks ! i) \<le> j"
  then have "j < first_index ks (ks ! i)" by simp
  from first_index_before [OF this] assms show False by simp
qed

lemma filter_eq_single:
  "distinct xs \<Longrightarrow> filter (\<lambda>k. k = i) xs = (if i \<in> set xs then [i] else [])"
  by (induction xs) auto

lemma load_rows_set:
  "load_rows ld rs acc = Inr ts \<Longrightarrow> t \<in> set ts \<Longrightarrow> t \<in> set acc \<or> Inr t \<in> set (map ld rs)"
proof (induction rs arbitrary: acc)
  case Nil
  then show ?case by simp
next
  case (Cons r rs)
  show ?case
  proof (cases "ld r")
    case (Inl e)
    with Cons.prems show ?thesis by simp
  next
    case (Inr x)
    with Cons.prems have "load_rows ld rs (acc @ [x]) = Inr ts" by simp
    from Cons.IH [OF this Cons.prems(2)] Inr show ?thesis by auto
  qed
qed

lemma load_all_loaded_from:
  assumes "load_all src = Inr ts" "t \<in> set ts"
  shows "loaded_from src t"
proof -
  from assms(1) obtain a1 a2 a3 a4 where
    l1: "load_rows load_sample_csv (sample_csv src) [] = Inr a1" and
    l2: "load_rows load_sample_json (sample_json src) a1 = Inr a2" and
    l3: "load_rows load_plaintext_csv (plaintext_csv src) a2 = Inr a3" and
    l4: "load_rows load_plaintext_json (plaintext_json src) a3 = Inr a4" and
    l5: "load_rows load_analyzed_csv (analyzed_csv src) a4 = Inr ts"
    by (auto simp: load_all_def split: sum.splits)
  have s1: "u \<in> set a1 \<Longrightarrow> Inr u \<in> set (map load_sample_csv (sample_csv src))" for u
    using load_rows_set [OF l1, of u] by simp
  have s2: "u \<in> set a2 \<Longrightarrow> u \<in> set a1 \<or> Inr u \<in> set (map load_sample_json (sample_json src))"
    for u by (rule load_rows_set [OF l2])
  have s3: "u \<in> set a3 \<Longrightarrow> u \<in> set a2 \<or> Inr u \<in> set (map load_plaintext_csv (plaintext_csv src))"
    for u by (rule load_rows_set [OF l3])
  have s4: "u \<in> set a4 \<Longrightarrow> u \<in> set a3 \<or> Inr u \<in> set (map load_plaintext_json (plaintext_json src))"
    for u by (rule load_rows_set [OF l4])
  have s5: "t \<in> set a4 \<or> Inr t \<in> set (map load_analyzed_csv (analyzed_csv src))"
    by (rule load_rows_set [OF l5 assms(2)])
  have "Inr t \<in> set (map load_sample_csv (sample_csv src)) \<or>
        Inr t \<in> set (map load_sample_json (sample_json src)) \<or>
        Inr t \<in> set (map load_plaintext_csv (plaintext_csv src)) \<or>
        Inr t \<in> set (map load_plaintext_json (plaintext_json src)) \<or>
        Inr t \<in> set (map load_analyzed_csv (analyzed_csv src))"
    using s1 [of t] s2 [of t] s3 [of t] s4 [of t] s5 by blast
  then show ?thesis unfolding loaded_from_def set_append by blast
qed

lemma dict_to_list_template:
  "dict_to_list (template_dict t) = Inr (map (\<lambda>kv. cell_text (snd kv)) (template_dict t))"
  by (simp add: dict_to_list_def template_dict_def fieldnames_def)

lemma writerows_templates:
  "writerows (map template_dict ts) =
     Inr (map (\<lambda>t. map (\<lambda>kv. cell_text (snd kv)) (template_dict t)) ts)"
  by (induction ts) (simp_all add: dict_to_list_template)

lemma keys_template_dict: "map fst (template_dict t) = fieldnames"
  by (simp add: template_dict_def fieldnames_def)

lemma consolidate_eq:
  "consolidate ts =
     Inr \<lparr>csv_header = fieldnames,
          csv_rows = map (\<lambda>t. map (\<lambda>kv. cell_text (snd kv)) (template_dict t))
            (sort_templates (map (best_of ts) (first_seen {} (map trimmed_title ts)))),
          json_records = map template_dict
            (sort_templates (map (best_of ts) (first_seen {} (map trimmed_title ts)))),
          report =
            \<lparr>dup_titles =
               map (title_entry (map trimmed_title ts)) (repeats (map trimmed_title ts)),
             dup_content =
               map (content_entry ts (map content_key ts)) (repeats (map content_key ts))\<rparr>\<rparr>"
  by (simp add: consolidate_def detect_eq dedup_eq writerows_templates Let_def)

lemma sort_templates_sorted:
  "sorted_wrt (\<lambda>a b. category a < category b \<or> (category a = category b \<and> title a \<le> title b))
     (sort_templates us)"
proof -
  have "sorted (map (\<lambda>t. (category t, title t)) (sort_templates us))"
    by (simp add: sort_templates_def)
  then have "sorted_wrt (\<lambda>a b. (category a, title a) \<le> (category b, title b)) (sort_templates us)"
    by (simp add: sorted_map)
  then show ?thesis
    by (rule sorted_wrt_mono_rel [rotated]) (auto simp: less_eq_prod_def)
qed

lemma consolidate_records:
  assumes "consolidate ts = Inr out"
  shows "\<exists>final. set final \<subseteq> set ts \<and> json_records out = map template_dict final \<and>
           csv_header out = fieldnames \<and>
           csv_rows out = map (\<lambda>t. map (\<lambda>kv. cell_text (snd kv)) (template_dict t)) final \<and>
           sorted_wrt
             (\<lambda>a b. category a < category b \<or> (category a = category b \<and> title a \<le> title b))
             final"
proof -
  let ?us = "map (best_of ts) (first_seen {} (map trimmed_title ts))"
  have "set (sort_templates ?us) \<subseteq> set ts"
    using best_of_mem [of _ ts] by (auto simp: sort_templates_def set_first_seen)
  with assms sort_templates_sorted [of ?us] show ?thesis unfolding consolidate_eq by auto
qed

lemma first_index_unique:
  assumes "j < length ks" "ks ! j = x" "\<forall>k < j. ks ! k \<noteq> x"
  shows "first_index ks x = j"
proof -
  have mem: "x \<in> set ks" using assms(1,2) by auto
  have "first_index ks x \<le> j"
  proof (rule ccontr)
    assume "\<not> first_index ks x \<le> j"
    then have "j < first_index ks x" by simp
    from first_index_before [OF this] assms(2) show False by simp
  qed
  moreover have "\<not> first_index ks x < j"
    using assms(3) first_index_nth [OF mem] by auto
  ultimately show ?thesis by simp
qed

lemma repeats_first:
  assumes "i \<in> set (repeats ks)"
  shows "first_index ks (ks ! i) < i \<and> i < length ks \<and> ks ! first_index ks (ks ! i) = ks ! i \<and>
         (\<forall>k < first_index ks (ks ! i). ks ! k \<noteq> ks ! i)"
proof -
  from assms obtain j where i: "i < length ks" and j: "j < i" "ks ! j = ks ! i"
    by (auto simp: mem_repeats)
  have "first_index ks (ks ! i) \<le> j" by (rule first_index_earlier [OF j])
  moreover have "ks ! first_index ks (ks ! i) = ks ! i" using i by (simp add: first_index_nth)
  ultimately show ?thesis using i j first_index_before [of _ ks "ks ! i"] by auto
qed

lemma content_key_take: "content_key t = take 200 (strip (content t))"
  by (simp add: content_key_def Let_def)

lemma template_dict_inj: "template_dict t = template_dict u \<Longrightarrow> t = u"
  by (cases t, cases u) (simp add: template_dict_def)

lemma count_field_ok: "count_field d k = Inr n \<longleftrightarrow> count_ok (d k) n"
  by (cases "d k") (simp_all add: count_field_def dict_get_def)

lemma count_field_bad: "isl (count_field d k) \<longleftrightarrow> count_bad (d k)"
  by (cases "d k") (simp_all add: count_field_def dict_get_def)

lemma count_field_guarded_ok: "count_field_guarded d k = Inr n \<longleftrightarrow> count_ok_guarded (d k) n"
  by (cases "d k") (auto simp: count_field_guarded_def dict_get_def)

lemma count_field_guarded_bad: "isl (count_field_guarded d k) \<longleftrightarrow> count_bad_guarded (d k)"
  by (cases "d k") (simp_all add: count_field_guarded_def dict_get_def)

lemma set_int_strip: "set (int_strip s) \<subseteq> set s"
proof -
  have "set (int_strip s) = set (dropWhile is_int_space (rev (dropWhile is_int_space s)))"
    by (simp add: int_strip_def)
  also have "\<dots> \<subseteq> set (rev (dropWhile is_int_space s))" by (auto dest: set_dropWhileD)
  also have "\<dots> \<subseteq> set s" by (auto dest: set_dropWhileD)
  finally show ?thesis .
qed

lemma int_of_str_nonneg:
  assumes "int_of_str s = Inr n" "CHR ''-'' \<notin> set s"
  shows "0 \<le> n"
proof (cases "int_strip s")
  case Nil
  with assms show ?thesis by (simp add: int_of_str_def)
next
  case (Cons c cs)
  then have "c \<in> set s" using set_int_strip [of s] by auto
  with assms(2) have c: "c \<noteq> CHR ''-''" by auto
  show ?thesis
  proof (cases "c = CHR ''+''")
    case True
    with assms(1) Cons c show ?thesis
      by (cases "unsigned_of_str cs") (auto simp: int_of_str_def)
  next
    case False
    with assms(1) Cons c show ?thesis
      by (cases "unsigned_of_str (c # cs)") (auto simp: int_of_str_def)
  qed
qed

lemma py_int_nonneg: "py_int v = Inr n \<Longrightarrow> nonneg_source v \<Longrightarrow> 0 \<le> n"
proof (induction v rule: nonneg_source.induct)
  case (3 s)
  then show ?case using int_of_str_nonneg by simp
qed (auto split: if_splits)

lemma count_bad_not_ok: "count_bad v \<Longrightarrow> count_ok v n \<Longrightarrow> False"
  by (cases v) auto

lemma count_bad_guarded_not_ok: "count_bad_guarded v \<Longrightarrow> count_ok_guarded v n \<Longrightarrow> False"
  by (cases v) auto

lemma reads_counts_unguarded:
  assumes "\<And>r. ld r =
      (case pre r of Inl e \<Rightarrow> Inl e | Inr x \<Rightarrow>
       (case count_field (counts r) ''viewCount'' of Inl e \<Rightarrow> Inl e | Inr vc \<Rightarrow>
        (case count_field (counts r) ''useCount'' of Inl e \<Rightarrow> Inl e | Inr uc \<Rightarrow>
           Inr (mk r x vc uc))))"
    and "\<And>r x vc uc. viewCount (mk r x vc uc) = vc"
    and "\<And>r x vc uc. useCount (mk r x vc uc) = uc"
  shows "reads_counts ld counts count_ok count_bad (isl (pre r)) r"
  unfolding reads_counts_def assms(1)
  using count_field_bad [of "counts r" "''viewCount''"] count_field_bad [of "counts r" "''useCount''"]
    count_field_ok [of "counts r" "''viewCount''"] count_field_ok [of "counts r" "''useCount''"]
  by (auto simp: assms(2,3) split: sum.splits dest: count_bad_not_ok)

lemma reads_counts_guarded:
  assumes "\<And>r. ld r =
       (case count_field_guarded (counts r) ''viewCount'' of Inl e \<Rightarrow> Inl e | Inr vc \<Rightarrow>
        (case count_field_guarded (counts r) ''useCount'' of Inl e \<Rightarrow> Inl e | Inr uc \<Rightarrow>
           Inr (mk r vc uc)))"
    and "\<And>r vc uc. viewCount (mk r vc uc) = vc"
    and "\<And>r vc uc. useCount (mk r vc uc) = uc"
  shows "reads_counts ld counts count_ok_guarded count_bad_guarded False r"
  unfolding reads_counts_def assms(1)
  using count_field_guarded_bad [of "counts r" "''viewCount''"]
    count_field_guarded_bad [of "counts r" "''useCount''"]
    count_field_guarded_ok [of "counts r" "''viewCount''"]
    count_field_guarded_ok [of "counts r" "''useCount''"]
  by (auto simp: assms(2,3) split: sum.splits dest: count_bad_guarded_not_ok)

lemma sample_csv_counts:
  "reads_counts load_sample_csv csv_count count_ok count_bad False row"
  using reads_counts_unguarded [where pre = "\<lambda>r. Inr ()" and ld = load_sample_csv
      and counts = csv_count and r = row, OF _ _ _]
  by (simp add: load_sample_csv_def)

lemma sample_json_counts:
  "reads_counts load_sample_json json_count count_ok count_bad (isl (item_tags item)) item"
  using reads_counts_unguarded [where pre = item_tags and ld = load_sample_json
      and counts = json_count and r = item, OF _ _ _]
  by (simp add: load_sample_json_def)

lemma plaintext_json_counts:
  "reads_counts load_plaintext_json json_count count_ok count_bad (isl (item_tags item)) item"
  using reads_counts_unguarded [where pre = item_tags and ld = load_plaintext_json
      and counts = json_count and r = item, OF _ _ _]
  by (simp add: load_plaintext_json_def)

lemma plaintext_csv_counts:
  "reads_counts load_plaintext_csv csv_count count_ok_guarded count_bad_guarded False row"
  using reads_counts_guarded [where ld = load_plaintext_csv and counts = csv_count and r = row,
      OF _ _ _]
  by (simp add: load_plaintext_csv_def)

lemma analyzed_csv_counts:
  "reads_counts load_analyzed_csv csv_count count_ok_guarded count_bad_guarded False row"
  using reads_counts_guarded [where ld = load_analyzed_csv and counts = csv_count and r = row,
      OF _ _ _]
  by (simp add: load_analyzed_csv_def)

lemma count_ok_nonneg:
  "count_ok (d k) n \<Longrightarrow> nonneg_source (dict_get d k (PInt 0)) \<Longrightarrow> 0 \<le> n"
  by (cases "d k") (auto simp: dict_get_def dest: py_int_nonneg)

lemma count_ok_guarded_nonneg:
  "count_ok_guarded (d k) n \<Longrightarrow> nonneg_source (dict_get d k (PInt 0)) \<Longrightarrow> 0 \<le> n"
  by (cases "d k") (auto simp: dict_get_def dest: py_int_nonneg split: if_splits)

lemma reads_counts_nonneg:
  assumes "reads_counts ld counts count_ok count_bad other r" "ld r = Inr t"
    "nonneg_counts (counts r)"
  shows "0 \<le> viewCount t \<and> 0 \<le> useCount t"
  using assms count_ok_nonneg [of "counts r"]
  by (auto simp: reads_counts_def nonneg_counts_def)

lemma reads_counts_guarded_nonneg:
  assumes "reads_counts ld counts count_ok_guarded count_bad_guarded other r" "ld r = Inr t"
    "nonneg_counts (counts r)"
  shows "0 \<le> viewCount t \<and> 0 \<le> useCount t"
  using assms count_ok_guarded_nonneg [of "counts r"]
  by (auto simp: reads_counts_def nonneg_counts_def)




section \<open>Deduplication: one record per trimmed title\<close>

text \<open>
  C1. For every list of loaded records and every trimmed title \<open>T\<close> that occurs in it,
  the deduplicated list holds exactly one record whose trimmed title is \<open>T\<close>; that record
  is one of the candidates (the records of the input with trimmed title \<open>T\<close>, in input
  order), its \<open>viewCount + useCount\<close> is the largest among the candidates, and every
  candidate before it has a strictly smaller sum, so that among several candidates with the
  largest sum the earliest one is taken. The loop never raises.
\<close>

theorem dedup_selects_first_best:
  "\<exists>us. dedup ts = Inr us \<and>
     (\<forall>T \<in> set (map trimmed_title ts).
        \<exists>u i. filter (\<lambda>v. trimmed_title v = T) us = [u] \<and>
          i < length (candidates ts T) \<and> u = candidates ts T ! i \<and>
          (\<forall>c \<in> set (candidates ts T). score c \<le> score u) \<and>
          (\<forall>k < i. score (candidates ts T ! k) < score u))"
proof -
  let ?us = "map (best_of ts) (first_seen {} (map trimmed_title ts))"
  have "\<exists>u i. filter (\<lambda>v. trimmed_title v = T) ?us = [u] \<and>
          i < length (candidates ts T) \<and> u = candidates ts T ! i \<and>
          (\<forall>c \<in> set (candidates ts T). score c \<le> score u) \<and>
          (\<forall>k < i. score (candidates ts T ! k) < score u)"
    if T: "T \<in> set (map trimmed_title ts)" for T
  proof -
    from best_of_props [OF T] obtain i where
      "i < length (candidates ts T)" "best_of ts T = candidates ts T ! i"
      "\<forall>c \<in> set (candidates ts T). score c \<le> score (best_of ts T)"
      "\<forall>k < i. score (candidates ts T ! k) < score (best_of ts T)" by blast
    moreover have "filter (\<lambda>v. trimmed_title v = T) ?us = [best_of ts T]"
      using dedup_one_per_title [OF T] by (simp add: trimmed_title_def)
    ultimately show ?thesis by blast
  qed
  then show ?thesis using dedup_eq [of ts] by blast
qed

text \<open>
  Three records titled "Email Draft" up to surrounding blanks, with sums 5, 12 and 12, and
  one other record: the first of the two records with sum 12 is kept.
\<close>

theorem dedup_selects_first_best_witness:
  "dedup [ta, tb, tc, td] = Inr [tb, td] \<and>
   ''Email Draft'' \<in> set (map trimmed_title [ta, tb, tc, td]) \<and>
   candidates [ta, tb, tc, td] ''Email Draft'' = [ta, tb, tc] \<and>
   filter (\<lambda>v. trimmed_title v = ''Email Draft'') [tb, td] = [tb] \<and>
   score ta \<le> score tb \<and> score tc \<le> score tb"
proof -
  let ?ts = "[ta, tb, tc, td]"
  have d: "dedup ?ts = Inr [tb, td]" by code_simp
  have m: "''Email Draft'' \<in> set (map trimmed_title ?ts)" by code_simp
  have c: "candidates ?ts ''Email Draft'' = [ta, tb, tc]" by code_simp
  have f: "filter (\<lambda>v. trimmed_title v = ''Email Draft'') [tb, td] = [tb]" by code_simp
  from dedup_selects_first_best [of ?ts] obtain us where
    us: "dedup ?ts = Inr us" and
    sel: "\<forall>T \<in> set (map trimmed_title ?ts).
        \<exists>u i. filter (\<lambda>v. trimmed_title v = T) us = [u] \<and>
          i < length (candidates ?ts T) \<and> u = candidates ?ts T ! i \<and>
          (\<forall>c \<in> set (candidates ?ts T). score c \<le> score u) \<and>
          (\<forall>k < i. score (candidates ?ts T ! k) < score u)"
    by blast
  from us d have eq: "us = [tb, td]" by simp
  from sel m obtain u where
    u: "filter (\<lambda>v. trimmed_title v = ''Email Draft'') us = [u]" and
    ge: "\<forall>c \<in> set (candidates ?ts ''Email Draft''). score c \<le> score u"
    by blast
  from u eq f have "u = tb" by simp
  with ge c have "score ta \<le> score tb" "score tc \<le> score tb" by simp_all
  with d m c f show ?thesis by blast
qed

text \<open>
  C2. The deduplicated list is never longer than the list of loaded records, and the two
  lengths are equal exactly when the trimmed titles of the loaded records are pairwise
  distinct.
\<close>

theorem dedup_length:
  "\<exists>us. dedup ts = Inr us \<and> length us \<le> length ts \<and>
     (length us = length ts \<longleftrightarrow> distinct (map trimmed_title ts))"
proof -
  let ?us = "map (best_of ts) (first_seen {} (map trimmed_title ts))"
  have len: "length ?us = card (set (map trimmed_title ts))"
    by (simp only: length_map length_first_seen)
  have "length ?us \<le> length ts"
    unfolding len using card_length [of "map trimmed_title ts"] by simp
  moreover have "length ?us = length ts \<longleftrightarrow> distinct (map trimmed_title ts)"
    unfolding len
    using card_distinct [of "map trimmed_title ts"] distinct_card [of "map trimmed_title ts"]
    by auto
  ultimately show ?thesis using dedup_eq [of ts] by blast
qed

theorem dedup_length_witness:
  "dedup [ta, tb, tc, td] = Inr [tb, td] \<and> length [tb, td] \<le> length [ta, tb, tc, td] \<and>
   length [tb, td] \<noteq> length [ta, tb, tc, td] \<and> \<not> distinct (map trimmed_title [ta, tb, tc, td])"
proof -
  let ?ts = "[ta, tb, tc, td]"
  have d: "dedup ?ts = Inr [tb, td]" by code_simp
  from dedup_length [of ?ts] obtain us where
    us: "dedup ?ts = Inr us" and le: "length us \<le> length ?ts" and
    iff: "length us = length ?ts \<longleftrightarrow> distinct (map trimmed_title ?ts)"
    by blast
  from us d have eq: "us = [tb, td]" by simp
  from iff eq have "\<not> distinct (map trimmed_title ?ts)" by simp
  with d le eq show ?thesis by simp
qed

section \<open>Duplicate detection\<close>

text \<open>
  C6. The detection pass never raises. For every record, the report's list of title
  collisions holds exactly one entry whose second index is the index of that record when
  an earlier record has the same trimmed title, and none otherwise (so the first record
  with a trimmed title produces no entry). Every entry holds the trimmed title, the index
  of the first record with that trimmed title and the index of the current record.
\<close>

theorem title_collisions:
  "\<exists>rep. detect ts = Inr rep \<and>
     (\<forall>i < length ts.
        length (filter (\<lambda>e. dup_indices e ! 1 = i) (dup_titles rep)) =
          (if \<exists>j < i. trimmed_title (ts ! j) = trimmed_title (ts ! i) then 1 else 0)) \<and>
     (\<forall>e \<in> set (dup_titles rep).
        \<exists>j i. dup_indices e = [j, i] \<and> j < i \<and> i < length ts \<and>
          dup_title e = trimmed_title (ts ! i) \<and>
          trimmed_title (ts ! j) = trimmed_title (ts ! i) \<and>
          (\<forall>k < j. trimmed_title (ts ! k) \<noteq> trimmed_title (ts ! i)))"
proof -
  let ?ks = "map trimmed_title ts"
  let ?es = "map (title_entry ?ks) (repeats ?ks)"
  have count: "length (filter (\<lambda>e. dup_indices e ! 1 = i) ?es) =
      (if \<exists>j < i. trimmed_title (ts ! j) = trimmed_title (ts ! i) then 1 else 0)"
    if i: "i < length ts" for i
  proof -
    have "filter (\<lambda>e. dup_indices e ! 1 = i) ?es =
        map (title_entry ?ks) (filter (\<lambda>k. k = i) (repeats ?ks))"
      by (simp add: filter_map comp_def title_entry_def)
    also have "\<dots> = map (title_entry ?ks) (if i \<in> set (repeats ?ks) then [i] else [])"
      by (simp only: filter_eq_single [OF distinct_repeats])
    finally have "length (filter (\<lambda>e. dup_indices e ! 1 = i) ?es) =
        (if i \<in> set (repeats ?ks) then 1 else 0)" by simp
    moreover have "i \<in> set (repeats ?ks) \<longleftrightarrow>
        (\<exists>j < i. trimmed_title (ts ! j) = trimmed_title (ts ! i))"
      using i by (auto simp: mem_repeats)
    ultimately show ?thesis by simp
  qed
  have entry: "\<exists>j i. dup_indices e = [j, i] \<and> j < i \<and> i < length ts \<and>
          dup_title e = trimmed_title (ts ! i) \<and>
          trimmed_title (ts ! j) = trimmed_title (ts ! i) \<and>
          (\<forall>k < j. trimmed_title (ts ! k) \<noteq> trimmed_title (ts ! i))"
    if e: "e \<in> set ?es" for e
  proof -
    from e obtain i where i: "i \<in> set (repeats ?ks)" and ei: "e = title_entry ?ks i" by auto
    let ?j = "first_index ?ks (?ks ! i)"
    from repeats_first [OF i] have f: "?j < i" "i < length ?ks" "?ks ! ?j = ?ks ! i"
      "\<forall>k < ?j. ?ks ! k \<noteq> ?ks ! i" by blast+
    have len: "i < length ts" "?j < length ts" using f(1,2) by simp_all
    have nth: "?ks ! k = trimmed_title (ts ! k)" if "k \<le> i" for k
      using that len(1) by simp
    have "dup_indices e = [?j, i]" "dup_title e = trimmed_title (ts ! i)"
      using ei nth [of i] by (simp_all add: title_entry_def)
    moreover have "trimmed_title (ts ! ?j) = trimmed_title (ts ! i)"
      using f(3) nth [of ?j] nth [of i] f(1) by simp
    moreover have "\<forall>k < ?j. trimmed_title (ts ! k) \<noteq> trimmed_title (ts ! i)"
    proof (intro allI impI)
      fix k assume k: "k < ?j"
      then have "?ks ! k \<noteq> ?ks ! i" using f(4) by blast
      then show "trimmed_title (ts ! k) \<noteq> trimmed_title (ts ! i)"
        using nth [of k] nth [of i] k f(1) by simp
    qed
    ultimately show ?thesis using f(1) len(1) by blast
  qed
  show ?thesis using detect_eq [of ts] count entry by simp
qed

theorem title_collisions_witness:
  "detect [ta, tb] = Inr rep_ex \<and>
   trimmed_title ([ta, tb] ! 0) = trimmed_title ([ta, tb] ! 1) \<and>
   length (filter (\<lambda>e. dup_indices e ! 1 = 1) (dup_titles rep_ex)) = 1 \<and>
   length (filter (\<lambda>e. dup_indices e ! 1 = 0) (dup_titles rep_ex)) = 0"
proof -
  let ?ts = "[ta, tb]"
  have d: "detect ?ts = Inr rep_ex" by code_simp
  have t: "trimmed_title (?ts ! 0) = trimmed_title (?ts ! 1)" by code_simp
  from title_collisions [of ?ts] obtain rep where
    rep: "detect ?ts = Inr rep" and
    cnt: "\<forall>i < length ?ts.
        length (filter (\<lambda>e. dup_indices e ! 1 = i) (dup_titles rep)) =
          (if \<exists>j < i. trimmed_title (?ts ! j) = trimmed_title (?ts ! i) then 1 else 0)"
    by blast
  from rep d have eq: "rep = rep_ex" by simp
  have ex: "\<exists>j < 1. trimmed_title (?ts ! j) = trimmed_title (?ts ! 1)"
    using t by (intro exI [of _ 0]) simp
  have "(1::nat) < length ?ts" by simp
  with cnt have "length (filter (\<lambda>e. dup_indices e ! 1 = 1) (dup_titles rep)) =
      (if \<exists>j < 1. trimmed_title (?ts ! j) = trimmed_title (?ts ! 1) then 1 else 0)"
    by blast
  with ex have one: "length (filter (\<lambda>e. dup_indices e ! 1 = 1) (dup_titles rep)) = 1"
    by simp
  have "(0::nat) < length ?ts" by simp
  with cnt have "length (filter (\<lambda>e. dup_indices e ! 1 = 0) (dup_titles rep)) =
      (if \<exists>j < 0. trimmed_title (?ts ! j) = trimmed_title (?ts ! 0) then 1 else 0)"
    by blast
  then have zero: "length (filter (\<lambda>e. dup_indices e ! 1 = 0) (dup_titles rep)) = 0"
    by simp
  from d t one zero eq show ?thesis by simp
qed

text \<open>
  C3, as the code has it. The content key of a record is the first 200 characters of its
  content after \<^verbatim>\<open>strip()\<close>. The report lists the pair of indices \<open>[j, i]\<close> as a content
  duplicate exactly when \<open>j\<close> is before \<open>i\<close>, the records \<open>j\<close> and \<open>i\<close> have the same
  content key, and no record before \<open>j\<close> has that key (\<open>j\<close> is the first occurrence).
\<close>

theorem content_collisions:
  "\<exists>rep. detect ts = Inr rep \<and>
     (\<forall>j i. (\<exists>e \<in> set (dup_content rep). pair_indices e = [j, i]) \<longleftrightarrow>
        (j < i \<and> i < length ts \<and>
         take 200 (strip (content (ts ! j))) = take 200 (strip (content (ts ! i))) \<and>
         (\<forall>k < j. take 200 (strip (content (ts ! k))) \<noteq> take 200 (strip (content (ts ! j))))))"
proof -
  let ?ks = "map content_key ts"
  let ?es = "map (content_entry ts ?ks) (repeats ?ks)"
  have "(\<exists>e \<in> set ?es. pair_indices e = [j, i]) \<longleftrightarrow>
        (j < i \<and> i < length ts \<and> content_key (ts ! j) = content_key (ts ! i) \<and>
         (\<forall>k < j. content_key (ts ! k) \<noteq> content_key (ts ! j)))" (is "?L \<longleftrightarrow> ?R") for j i
  proof
    assume ?L
    then obtain i' where i': "i' \<in> set (repeats ?ks)"
      and p: "pair_indices (content_entry ts ?ks i') = [j, i]" by auto
    from p have eq: "i' = i" "first_index ?ks (?ks ! i) = j"
      by (auto simp: content_entry_def)
    from repeats_first [OF i'] eq have f: "j < i" "i < length ?ks" "?ks ! j = ?ks ! i"
      "\<forall>k < j. ?ks ! k \<noteq> ?ks ! i" by blast+
    have len: "i < length ts" using f(2) by simp
    have nth: "?ks ! k = content_key (ts ! k)" if "k \<le> i" for k
      using that len by simp
    have "content_key (ts ! j) = content_key (ts ! i)"
      using f(3) nth [of j] nth [of i] f(1) by simp
    moreover have "\<forall>k < j. content_key (ts ! k) \<noteq> content_key (ts ! j)"
    proof (intro allI impI)
      fix k assume k: "k < j"
      then have "?ks ! k \<noteq> ?ks ! j" using f(3,4) by simp
      then show "content_key (ts ! k) \<noteq> content_key (ts ! j)"
        using nth [of k] nth [of j] k f(1) by simp
    qed
    ultimately show ?R using f(1) len by blast
  next
    assume r: ?R
    then have mem: "i \<in> set (repeats ?ks)" by (auto simp: mem_repeats)
    have "first_index ?ks (?ks ! i) = j"
      by (rule first_index_unique) (use r in auto)
    then have "pair_indices (content_entry ts ?ks i) = [j, i]" by (simp add: content_entry_def)
    with mem show ?L by auto
  qed
  then show ?thesis using detect_eq [of ts] by (simp add: content_key_take)
qed

theorem content_collisions_witness:
  "detect [ta, tb] = Inr rep_ex \<and>
   take 200 (strip (content ([ta, tb] ! 0))) = take 200 (strip (content ([ta, tb] ! 1))) \<and>
   [0, 1] \<in> set (map pair_indices (dup_content rep_ex))"
proof -
  let ?ts = "[ta, tb]"
  have d: "detect ?ts = Inr rep_ex" by code_simp
  have k: "take 200 (strip (content (?ts ! 0))) = take 200 (strip (content (?ts ! 1)))"
    by code_simp
  from content_collisions [of ?ts] obtain rep where
    rep: "detect ?ts = Inr rep" and
    iff: "\<forall>j i. (\<exists>e \<in> set (dup_content rep). pair_indices e = [j, i]) \<longleftrightarrow>
        (j < i \<and> i < length ?ts \<and>
         take 200 (strip (content (?ts ! j))) = take 200 (strip (content (?ts ! i))) \<and>
         (\<forall>k < j. take 200 (strip (content (?ts ! k))) \<noteq> take 200 (strip (content (?ts ! j)))))"
    by blast
  from rep d have eq: "rep = rep_ex" by simp
  have "(0::nat) < 1 \<and> 1 < length ?ts \<and>
      take 200 (strip (content (?ts ! 0))) = take 200 (strip (content (?ts ! 1))) \<and>
      (\<forall>k < (0::nat). take 200 (strip (content (?ts ! k))) \<noteq> take 200 (strip (content (?ts ! 0))))"
    using k by simp
  with iff have "\<exists>e \<in> set (dup_content rep). pair_indices e = [0, 1]" by blast
  with eq have "[0, 1] \<in> set (map pair_indices (dup_content rep_ex))" by force
  with d k show ?thesis by simp
qed

text \<open>
  C3, as the claim states it, compares the first 200 characters of the content fields
  themselves. The two records below have the contents \<^verbatim>\<open>'Dear team'\<close> and
  \<^verbatim>\<open>' Dear team'\<close>: their first 200 characters differ, and the pair is reported.
\<close>

theorem content_prefix_counterexample:
  "detect [ta, tb] = Inr rep_ex \<and>
   dup_content rep_ex =
     [\<lparr>title1 = ''Email Draft'', title2 = '' Email Draft '', pair_indices = [0, 1]\<rparr>] \<and>
   take 200 (content ta) \<noteq> take 200 (content tb)"
  by code_simp

section \<open>Loaded counts and formats\<close>

text \<open>
  C10. A record loaded from \<^verbatim>\<open>sample-templates.csv\<close> or \<^verbatim>\<open>sample-templates.json\<close> has
  the format \<^verbatim>\<open>'html'\<close>, whatever the row or item holds under \<^verbatim>\<open>format\<close>; the other three
  loaders take the format of the source, \<^verbatim>\<open>'plain'\<close> when it has none.
\<close>

theorem sample_format_html:
  "(load_sample_csv row = Inr t \<longrightarrow> format t = ''html'') \<and>
   (load_sample_json item = Inr u \<longrightarrow> format u = ''html'') \<and>
   (load_plaintext_csv row = Inr t' \<longrightarrow> format t' = dict_get (csv_text row) ''format'' ''plain'') \<and>
   (load_plaintext_json item = Inr u' \<longrightarrow>
      format u' = dict_get (json_text item) ''format'' ''plain'') \<and>
   (load_analyzed_csv row = Inr t'' \<longrightarrow> format t'' = dict_get (csv_text row) ''format'' ''plain'')"
  by (auto simp: load_sample_csv_def load_sample_json_def load_plaintext_csv_def
      load_plaintext_json_def load_analyzed_csv_def split: sum.splits)

theorem sample_format_html_witness:
  "load_sample_csv row_ok = Inr (rec_ok\<lparr>format := ''html''\<rparr>) \<and>
   load_sample_json item_ok = Inr (rec_item\<lparr>format := ''html''\<rparr>) \<and>
   load_plaintext_csv row_ok = Inr rec_ok \<and>
   load_plaintext_json item_ok = Inr rec_item \<and>
   load_analyzed_csv row_ok = Inr rec_ok \<and>
   dict_get (csv_text row_ok) ''format'' ''plain'' = ''markdown'' \<and>
   format (rec_ok\<lparr>format := ''html''\<rparr>) = ''html'' \<and>
   format (rec_item\<lparr>format := ''html''\<rparr>) = ''html'' \<and>
   format rec_ok = ''markdown'' \<and> format rec_item = ''markdown''"
proof -
  have a: "load_sample_csv row_ok = Inr (rec_ok\<lparr>format := ''html''\<rparr>)" by code_simp
  have b: "load_sample_json item_ok = Inr (rec_item\<lparr>format := ''html''\<rparr>)" by code_simp
  have c: "load_plaintext_csv row_ok = Inr rec_ok" by code_simp
  have d: "load_plaintext_json item_ok = Inr rec_item" by code_simp
  have e: "load_analyzed_csv row_ok = Inr rec_ok" by code_simp
  have f: "dict_get (csv_text row_ok) ''format'' ''plain'' = ''markdown''" by code_simp
  have g: "dict_get (json_text item_ok) ''format'' ''plain'' = ''markdown''" by code_simp
  from sample_format_html [of row_ok "rec_ok\<lparr>format := ''html''\<rparr>" item_ok
      "rec_item\<lparr>format := ''html''\<rparr>" rec_ok rec_item rec_ok] a b c d e f g
  show ?thesis by simp
qed

text \<open>
  C4, as the code has it. The counts of a loaded record are integers, and they are not
  negative when the count values of its row or item are not: a value that is a negative
  number or a string with a minus sign is excluded, any other value that \<^verbatim>\<open>int\<close> accepts
  gives a count of at least 0.
\<close>

theorem loaded_counts_nonneg:
  "(nonneg_counts (csv_count row) \<longrightarrow>
      (load_sample_csv row = Inr t \<or> load_plaintext_csv row = Inr t \<or>
       load_analyzed_csv row = Inr t \<longrightarrow> 0 \<le> viewCount t \<and> 0 \<le> useCount t)) \<and>
   (nonneg_counts (json_count item) \<longrightarrow>
      (load_sample_json item = Inr u \<or> load_plaintext_json item = Inr u \<longrightarrow>
       0 \<le> viewCount u \<and> 0 \<le> useCount u))"
  using reads_counts_nonneg [OF sample_csv_counts, of row t]
    reads_counts_guarded_nonneg [OF plaintext_csv_counts, of row t]
    reads_counts_guarded_nonneg [OF analyzed_csv_counts, of row t]
    reads_counts_nonneg [OF sample_json_counts, of item u]
    reads_counts_nonneg [OF plaintext_json_counts, of item u]
  by blast

theorem loaded_counts_nonneg_witness:
  "nonneg_counts (csv_count row_ok) \<and> load_analyzed_csv row_ok = Inr rec_ok \<and>
   nonneg_counts (json_count item_ok) \<and> load_plaintext_json item_ok = Inr rec_item \<and>
   0 \<le> viewCount rec_ok \<and> 0 \<le> useCount rec_ok \<and>
   0 \<le> viewCount rec_item \<and> 0 \<le> useCount rec_item"
proof -
  have a: "nonneg_counts (csv_count row_ok)" by code_simp
  have b: "load_analyzed_csv row_ok = Inr rec_ok" by code_simp
  have c: "nonneg_counts (json_count item_ok)" by code_simp
  have d: "load_plaintext_json item_ok = Inr rec_item" by code_simp
  from loaded_counts_nonneg [of row_ok rec_ok item_ok rec_item] a b c d
  show ?thesis by blast
qed

text \<open>
  C4, as the claim states it, fails: the cell \<^verbatim>\<open>'-5'\<close> under \<^verbatim>\<open>viewCount\<close> is loaded as
  the count -5.
\<close>

theorem negative_count_counterexample:
  "load_sample_csv row_neg = Inr rec_neg \<and> viewCount rec_neg < 0"
  by code_simp




section \<open>Sorting and the written files\<close>



text \<open>
  C8. In a run that ends without an exception, the CSV file and the JSON file hold the same
  number of records in the same order; the JSON object at a position has the nine field
  names as its keys, in the order of the CSV header, and the CSV row at that position holds
  the values of that object, column by column, as the csv writer prints them.
\<close>

theorem csv_json_same_records:
  assumes "consolidate_templates src = Inr out"
  shows "csv_header out = fieldnames \<and> length (csv_rows out) = length (json_records out) \<and>
     (\<forall>i < length (json_records out).
        map fst (json_records out ! i) = fieldnames \<and>
        csv_rows out ! i = map (\<lambda>kv. cell_text (snd kv)) (json_records out ! i))"
proof -
  from assms obtain ts where "consolidate ts = Inr out"
    by (auto simp: consolidate_templates_def split: sum.splits)
  from consolidate_records [OF this] obtain final where
    j: "json_records out = map template_dict final" and h: "csv_header out = fieldnames" and
    c: "csv_rows out = map (\<lambda>t. map (\<lambda>kv. cell_text (snd kv)) (template_dict t)) final"
    by blast
  show ?thesis unfolding j h c by (simp add: keys_template_dict)
qed

theorem csv_json_same_records_witness:
  "consolidate_templates src_ex = Inr out_ex \<and>
   length (csv_rows out_ex) = length (json_records out_ex) \<and>
   map fst (json_records out_ex ! 1) = fieldnames \<and>
   csv_rows out_ex ! 1 = map (\<lambda>kv. cell_text (snd kv)) (json_records out_ex ! 1) \<and>
   csv_rows out_ex ! 1 = ['' Agenda '', ''Items'', ''plain'', [], ''work'', [], [], ''0'', ''0'']"
proof -
  have r: "consolidate_templates src_ex = Inr out_ex" by code_simp
  have l: "1 < length (json_records out_ex)" by (simp add: out_ex_def)
  have v: "csv_rows out_ex ! 1 =
      ['' Agenda '', ''Items'', ''plain'', [], ''work'', [], [], ''0'', ''0'']"
    by (simp add: out_ex_def)
  from csv_json_same_records [OF r] l r v show ?thesis by blast
qed

text \<open>
  C9. Nothing after the loading loops builds or changes a record: in a run that ends
  without an exception, the JSON file and the CSV file are written from one list of
  records, and every record of that list is, field for field, a record that one of the five
  loaders returned for a row or item of its source.
\<close>

theorem output_records_loaded:
  assumes "consolidate_templates src = Inr out"
  shows "\<exists>final. json_records out = map template_dict final \<and>
     csv_rows out = map (\<lambda>t. map (\<lambda>kv. cell_text (snd kv)) (template_dict t)) final \<and>
     (\<forall>t \<in> set final. loaded_from src t)"
proof -
  from assms obtain ts where l: "load_all src = Inr ts" and c: "consolidate ts = Inr out"
    by (auto simp: consolidate_templates_def split: sum.splits)
  from consolidate_records [OF c] obtain final where
    "set final \<subseteq> set ts" "json_records out = map template_dict final"
    "csv_rows out = map (\<lambda>t. map (\<lambda>kv. cell_text (snd kv)) (template_dict t)) final"
    by blast
  moreover from this(1) have "\<forall>t \<in> set final. loaded_from src t"
    using load_all_loaded_from [OF l] by blast
  ultimately show ?thesis by blast
qed

theorem output_records_loaded_witness:
  "consolidate_templates src_ex = Inr out_ex \<and>
   json_records out_ex = map template_dict [rec_greeting, rec_agenda] \<and>
   loaded_from src_ex rec_greeting \<and> loaded_from src_ex rec_agenda"
proof -
  have r: "consolidate_templates src_ex = Inr out_ex" by code_simp
  have j: "json_records out_ex = map template_dict [rec_greeting, rec_agenda]"
    by (simp add: out_ex_def)
  from output_records_loaded [OF r] obtain final where
    f: "json_records out_ex = map template_dict final" and
    a: "\<forall>t \<in> set final. loaded_from src_ex t"
    by blast
  have "inj template_dict" by (rule injI) (rule template_dict_inj)
  with f j have "final = [rec_greeting, rec_agenda]" using map_injective by metis
  with a have "loaded_from src_ex rec_greeting" "loaded_from src_ex rec_agenda" by simp_all
  with r j show ?thesis by blast
qed

end
